theory Spec2Isabelle
  imports Main
begin

section \<open>JavaScript containers used by the cache\<close>

text \<open>
  A JavaScript \<open>Map\<close> iterates in insertion order, \<open>set\<close> on a key that is present keeps
  the key's position, \<open>delete\<close> removes the entry. It is modelled as an association list
  with one entry per key, oldest insertion first.
\<close>

type_synonym ('k, 'v) jsmap = "('k \<times> 'v) list"

definition jsmap_get :: "('k, 'v) jsmap \<Rightarrow> 'k \<Rightarrow> 'v option" where
  "jsmap_get m k = map_of m k"

definition jsmap_has :: "('k, 'v) jsmap \<Rightarrow> 'k \<Rightarrow> bool" where
  "jsmap_has m k = (map_of m k \<noteq> None)"

definition jsmap_delete :: "('k, 'v) jsmap \<Rightarrow> 'k \<Rightarrow> ('k, 'v) jsmap" where
  "jsmap_delete m k = filter (\<lambda>e. fst e \<noteq> k) m"

fun jsmap_set :: "('k, 'v) jsmap \<Rightarrow> 'k \<Rightarrow> 'v \<Rightarrow> ('k, 'v) jsmap" where
  "jsmap_set [] k v = [(k, v)]"
| "jsmap_set (e # m) k v = (if fst e = k then (k, v) # m else e # jsmap_set m k v)"

definition jsmap_size :: "('k, 'v) jsmap \<Rightarrow> nat" where
  "jsmap_size m = length m"

text \<open>\<open>m.keys().next().value\<close>: the oldest key, \<open>undefined\<close> (here \<open>None\<close>) on an empty map.\<close>

definition jsmap_first_key :: "('k, 'v) jsmap \<Rightarrow> 'k option" where
  "jsmap_first_key m = (case m of [] \<Rightarrow> None | e # _ \<Rightarrow> Some (fst e))"

definition jsmap_keys :: "('k, 'v) jsmap \<Rightarrow> 'k list" where
  "jsmap_keys m = map fst m"

section \<open>Expression identity and the cache key (browserCache.js)\<close>

text \<open>
  The identity object read by \<open>BrowserCache._generateKey\<close>: the fields \<open>version\<close>,
  \<open>source\<close>, \<open>recover\<close> and \<open>rootPackages\<close> (a list of package identifiers, or
  \<open>undefined\<close>).
\<close>

record identity =
  version :: string
  source :: string
  recover :: bool
  rootPackages :: "string list option"

text \<open>
  \<open>JSON.stringify\<close> on an array of strings: every string quoted, with the escapes of
  ECMAScript's QuoteJSONString, separated by commas inside square brackets.
\<close>

definition hex_digit :: "nat \<Rightarrow> char" where
  "hex_digit n = (''0123456789abcdef'' ! (n mod 16))"

definition quote_json_char :: "char \<Rightarrow> string" where
  "quote_json_char c =
     (if c = CHR 0x08 then [CHR 0x5C, CHR ''b'']
      else if c = CHR 0x09 then [CHR 0x5C, CHR ''t'']
      else if c = CHR 0x0A then [CHR 0x5C, CHR ''n'']
      else if c = CHR 0x0C then [CHR 0x5C, CHR ''f'']
      else if c = CHR 0x0D then [CHR 0x5C, CHR ''r'']
      else if c = CHR 0x22 then [CHR 0x5C, CHR 0x22]
      else if c = CHR 0x5C then [CHR 0x5C, CHR 0x5C]
      else if (of_char c :: nat) < 32
        then [CHR 0x5C, CHR ''u'', CHR ''0'', CHR ''0'',
              hex_digit (of_char c div 16), hex_digit (of_char c)]
      else [c])"

definition quote_json_string :: "string \<Rightarrow> string" where
  "quote_json_string s = [CHR 0x22] @ concat (map quote_json_char s) @ [CHR 0x22]"

fun join :: "string \<Rightarrow> string list \<Rightarrow> string" where
  "join sep [] = []"
| "join sep [x] = x"
| "join sep (x # y # ys) = x @ sep @ join sep (y # ys)"

definition json_stringify :: "string list \<Rightarrow> string" where
  "json_stringify xs = ''['' @ join '','' (map quote_json_string xs) @ '']''"

text \<open>
  The text of an array after its first element: the further elements, each behind a
  comma, and the closing bracket.
\<close>

fun json_tail :: "string list \<Rightarrow> string" where
  "json_tail [] = '']''"
| "json_tail (x # xs) = '','' @ quote_json_string x @ json_tail xs"

definition generateKey :: "identity \<Rightarrow> string" where
  "generateKey i =
     join ''|''
       [version i,
        source i,
        (if recover i then ''recover'' else ''normal''),
        (case rootPackages i of Some ps \<Rightarrow> json_stringify ps | None \<Rightarrow> [])]"

section \<open>BrowserCache (browserCache.js)\<close>

text \<open>
  The cache object: the configured \<open>maxEntries\<close> (the number the constructor is given,
  100 when it is omitted; a whole number here, of either sign) and the \<open>Map\<close> from keys
  to cached values. The values are
  compiled syntax trees, which are objects and never \<open>undefined\<close>, so a lookup that
  yields \<open>undefined\<close> is a lookup of an absent key.
\<close>

record 'v BrowserCache =
  maxEntries :: int
  cache :: "(string, 'v) jsmap"

definition DEFAULT_MAX_ENTRIES :: int where
  "DEFAULT_MAX_ENTRIES = 100"

definition new_BrowserCache :: "int option \<Rightarrow> 'v BrowserCache" where
  "new_BrowserCache n =
     \<lparr>maxEntries = (case n of None \<Rightarrow> DEFAULT_MAX_ENTRIES | Some m \<Rightarrow> m), cache = []\<rparr>"

text \<open>The two methods on keys, as the bodies of \<open>get\<close> and \<open>set\<close> use the \<open>Map\<close>.\<close>

definition cache_get_key :: "'v BrowserCache \<Rightarrow> string \<Rightarrow> 'v option \<times> 'v BrowserCache" where
  "cache_get_key c key =
     (case jsmap_get (cache c) key of
        Some v \<Rightarrow> (Some v, c\<lparr>cache := jsmap_set (jsmap_delete (cache c) key) key v\<rparr>)
      | None \<Rightarrow> (None, c))"

definition cache_set_key :: "'v BrowserCache \<Rightarrow> string \<Rightarrow> 'v \<Rightarrow> 'v BrowserCache" where
  "cache_set_key c key v =
     (let m1 = (if int (jsmap_size (cache c)) \<ge> maxEntries c \<and> \<not> jsmap_has (cache c) key
                then (case jsmap_first_key (cache c) of
                        Some firstKey \<Rightarrow> jsmap_delete (cache c) firstKey
                      | None \<Rightarrow> cache c)
                else cache c);
          m2 = (if jsmap_has m1 key then jsmap_delete m1 key else m1)
      in c\<lparr>cache := jsmap_set m2 key v\<rparr>)"

definition BrowserCache_get :: "'v BrowserCache \<Rightarrow> identity \<Rightarrow> 'v option \<times> 'v BrowserCache" where
  "BrowserCache_get c i = cache_get_key c (generateKey i)"

definition BrowserCache_set :: "'v BrowserCache \<Rightarrow> identity \<Rightarrow> 'v \<Rightarrow> 'v BrowserCache" where
  "BrowserCache_set c i v = cache_set_key c (generateKey i) v"

text \<open>\<open>getStats().size\<close> and \<open>getStats().maxEntries\<close>.\<close>

definition stats_size :: "'v BrowserCache \<Rightarrow> nat" where
  "stats_size c = jsmap_size (cache c)"

text \<open>A sequence of calls on one cache, and the keys that each call counts as used.\<close>

datatype 'v cache_op = Get identity | Set identity 'v

fun apply_op :: "'v BrowserCache \<Rightarrow> 'v cache_op \<Rightarrow> 'v BrowserCache" where
  "apply_op c (Get i) = snd (BrowserCache_get c i)"
| "apply_op c (Set i v) = BrowserCache_set c i v"

text \<open>
  The keys a call uses: \<open>set\<close> uses its key, \<open>get\<close> uses its key when it finds a value.
  \<open>uses c ops\<close> lists them in the order of the calls.
\<close>

fun op_used :: "'v BrowserCache \<Rightarrow> 'v cache_op \<Rightarrow> string list" where
  "op_used c (Get i) = (case jsmap_get (cache c) (generateKey i) of Some _ \<Rightarrow> [generateKey i] | None \<Rightarrow> [])"
| "op_used c (Set i v) = [generateKey i]"

fun uses :: "'v BrowserCache \<Rightarrow> 'v cache_op list \<Rightarrow> string list" where
  "uses c [] = []"
| "uses c (x # ops) = op_used c x @ uses (apply_op c x) ops"

text \<open>
  The \<open>n\<close> most recently used keys of a sequence of uses, each once, the least
  recently used first (\<open>remdups\<close> keeps the last occurrence of every key).
\<close>

definition most_recent :: "nat \<Rightarrow> 'a list \<Rightarrow> 'a list" where
  "most_recent n us = (let r = remdups us in drop (length r - n) r)"

definition run_ops :: "'v BrowserCache \<Rightarrow> 'v cache_op list \<Rightarrow> 'v BrowserCache" where
  "run_ops c ops = foldl apply_op c ops"

section \<open>The recency invariant of the cache\<close>

text \<open>
  After the uses \<open>us\<close>, the keys of a cache of configured size \<open>n\<close> are a suffix of
  the recency list \<open>remdups us\<close>; the suffix is the whole list until the cache is full.
  The number of entries the code keeps is \<open>max 1 n\<close>: a cache configured with a size
  below one still stores the entry it is given last.
\<close>

definition lru_inv :: "int \<Rightarrow> string list \<Rightarrow> 'v BrowserCache \<Rightarrow> bool" where
  "lru_inv n us c \<longleftrightarrow>
     maxEntries c = n \<and> distinct (jsmap_keys (cache c)) \<and>
     length (jsmap_keys (cache c)) \<le> nat (max 1 n) \<and>
     (\<exists>P. remdups us = P @ jsmap_keys (cache c) \<and>
          (P \<noteq> [] \<longrightarrow> length (jsmap_keys (cache c)) = nat (max 1 n)))"

section \<open>The identity builder\<close>

text \<open>
  Modelled from the spec: \<open>createExpressionIdentity\<close> of \<open>src/utils/cacheUtils.js\<close>, which
  is not among the sources. The spec gives the identity the fields language version,
  source text, recover flag (a boolean, \<open>false\<close> when the flag is not given) and schema
  context (an ordered list of package identifiers, or \<open>undefined\<close>); the field names are
  the ones \<open>BrowserCache._generateKey\<close> and the tests read. The language version is a
  constant of the missing module and is a parameter here. A flag that is omitted or
  \<open>undefined\<close> is \<open>None\<close>.
\<close>

definition recover_flag :: "bool option \<Rightarrow> bool" where
  "recover_flag r = (case r of Some b \<Rightarrow> b | None \<Rightarrow> False)"

definition createExpressionIdentity ::
  "string \<Rightarrow> string \<Rightarrow> bool option \<Rightarrow> string list option \<Rightarrow> identity" where
  "createExpressionIdentity ver src r ctx =
     \<lparr>version = ver, source = src, recover = recover_flag r, rootPackages = ctx\<rparr>"

section \<open>browserFumifier (browser.js)\<close>

text \<open>
  A syntax tree is an object with an optional \<open>errors\<close> array; everything else of it is
  the parser's business and stays abstract (\<open>body\<close>).
\<close>

record ('n, 'e) ast =
  body :: 'n
  errors :: "'e list option"

text \<open>\<open>if (!ast.errors) ast.errors = []\<close>\<close>

definition ensure_errors :: "('n, 'e) ast \<Rightarrow> ('n, 'e) ast" where
  "ensure_errors a = (case errors a of None \<Rightarrow> a\<lparr>errors := Some []\<rparr> | Some _ \<Rightarrow> a)"

text \<open>
  A cache object supplied through \<open>options.astCache\<close>: \<open>get\<close> and \<open>set\<close> over the
  object's own state \<open>'s\<close>. Either may throw (\<open>Inl\<close>); \<open>get\<close> answers a value or
  something falsy (\<open>None\<close>).
\<close>

record ('s, 'a, 'e) ast_cache =
  cache_get :: "'s \<Rightarrow> identity \<Rightarrow> ('e + 'a option) \<times> 's"
  cache_set :: "'s \<Rightarrow> identity \<Rightarrow> 'a \<Rightarrow> ('e + unit) \<times> 's"

text \<open>The cache of the test suite's \<open>faultyCache\<close>: both methods always throw.\<close>

definition faulty_cache :: "'e \<Rightarrow> 'e \<Rightarrow> ('s, 'a, 'e) ast_cache" where
  "faulty_cache get_error set_error =
     \<lparr>cache_get = (\<lambda>s i. (Inl get_error, s)), cache_set = (\<lambda>s i a. (Inl set_error, s))\<rparr>"

record ('s, 'a, 'e) options =
  opt_recover :: "bool option"
  opt_astCache :: "('s, 'a, 'e) ast_cache option"

text \<open>
  What the function reads and writes outside its arguments: the module-level
  \<open>defaultBrowserCache\<close> (\<open>null\<close> until first used) and the state of a supplied cache.
\<close>

record ('s, 'a) world =
  defaultBrowserCache :: "'a BrowserCache option"
  supplied :: 's

definition getDefaultBrowserCache :: "('s, 'a) world \<Rightarrow> 'a BrowserCache \<times> ('s, 'a) world" where
  "getDefaultBrowserCache w =
     (case defaultBrowserCache w of
        Some c \<Rightarrow> (c, w)
      | None \<Rightarrow> (new_BrowserCache None, w\<lparr>defaultBrowserCache := Some (new_BrowserCache None)\<rparr>))"

text \<open>
  \<open>(options && options.astCache) || getDefaultBrowserCache()\<close>: the supplied cache, or
  \<open>None\<close> for the default one, which this call creates if it does not exist yet. Then
  the two calls made on the chosen cache. The methods of \<open>BrowserCache\<close> do not throw.
\<close>

definition chosen_cache ::
  "('s, 'a, 'e) options option \<Rightarrow> ('s, 'a) world \<Rightarrow> ('s, 'a, 'e) ast_cache option \<times> ('s, 'a) world" where
  "chosen_cache opts w =
     (case (case opts of None \<Rightarrow> None | Some p \<Rightarrow> opt_astCache p) of
        Some impl \<Rightarrow> (Some impl, w)
      | None \<Rightarrow> (None, snd (getDefaultBrowserCache w)))"

definition astCache_get ::
  "('s, 'a, 'e) ast_cache option \<Rightarrow> ('s, 'a) world \<Rightarrow> identity \<Rightarrow> ('e + 'a option) \<times> ('s, 'a) world" where
  "astCache_get ch w i =
     (case ch of
        Some impl \<Rightarrow> (let (r, s) = cache_get impl (supplied w) i in (r, w\<lparr>supplied := s\<rparr>))
      | None \<Rightarrow>
          (let (c, w1) = getDefaultBrowserCache w; (v, c1) = BrowserCache_get c i
           in (Inr v, w1\<lparr>defaultBrowserCache := Some c1\<rparr>)))"

definition astCache_set ::
  "('s, 'a, 'e) ast_cache option \<Rightarrow> ('s, 'a) world \<Rightarrow> identity \<Rightarrow> 'a \<Rightarrow> ('e + unit) \<times> ('s, 'a) world" where
  "astCache_set ch w i a =
     (case ch of
        Some impl \<Rightarrow> (let (r, s) = cache_set impl (supplied w) i a in (r, w\<lparr>supplied := s\<rparr>))
      | None \<Rightarrow>
          (let (c, w1) = getDefaultBrowserCache w
           in (Inr (), w1\<lparr>defaultBrowserCache := Some (BrowserCache_set c i a)\<rparr>)))"

text \<open>
  The modules \<open>parser.js\<close> and \<open>errorCodes.js\<close> are not among the sources: the parser
  (which throws or returns a tree; its second argument is the recover flag, \<open>undefined\<close>
  read as \<open>false\<close>), \<open>populateMessage\<close> and the language version are parameters.
\<close>

record ('n, 'e) host =
  parser :: "string \<Rightarrow> bool \<Rightarrow> 'e + ('n, 'e) ast"
  populateMessage :: "'e \<Rightarrow> 'e"
  languageVersion :: string

datatype ('n, 'e) expr_arg = Text string | Parsed "('n, 'e) ast"

text \<open>
  The first half of \<open>browserFumifier\<close> (up to the call of the main \<open>fumifier\<close>): the tree
  that is handed on, or the error that is thrown, and the state left behind. \<open>rcv\<close> is
  the source's \<open>recover\<close>.
\<close>

definition browserFumifier_ast ::
  "('n, 'e) host \<Rightarrow> ('s, ('n, 'e) ast) world \<Rightarrow> ('n, 'e) expr_arg \<Rightarrow>
     ('s, ('n, 'e) ast, 'e) options option \<Rightarrow> ('e + ('n, 'e) ast) \<times> ('s, ('n, 'e) ast) world" where
  "browserFumifier_ast h w expr opts =
     (let rcv = (case opts of None \<Rightarrow> None | Some p \<Rightarrow> opt_recover p);
          (astCache, w0) = chosen_cache opts w
      in case expr of
           Text src \<Rightarrow>
             (let identity = createExpressionIdentity (languageVersion h) src rcv None;
                  (got, w1) = astCache_get astCache w0 identity;
                  cached = (case got of Inl cacheError \<Rightarrow> None | Inr v \<Rightarrow> v)
              in case cached of
                   Some a \<Rightarrow> (Inr a, w1)
                 | None \<Rightarrow>
                     (case parser h src (recover_flag rcv) of
                        Inl err \<Rightarrow> (Inl (populateMessage h err), w1)
                      | Inr parsed \<Rightarrow>
                          (let a = ensure_errors parsed;
                               (_, w2) = astCache_set astCache w1 identity a
                           in (Inr a, w2))))
         | Parsed a \<Rightarrow> (Inr (ensure_errors a), w0))"

text \<open>Parsing with no cache at all: the parser's answer, with the \<open>errors\<close> array ensured.\<close>

definition direct_parse :: "('n, 'e) host \<Rightarrow> string \<Rightarrow> bool option \<Rightarrow> 'e + ('n, 'e) ast" where
  "direct_parse h src rcv =
     (case parser h src (recover_flag rcv) of
        Inl err \<Rightarrow> Inl (populateMessage h err)
      | Inr parsed \<Rightarrow> Inr (ensure_errors parsed))"

text \<open>
  Several compilations of source texts one after the other, each with its own recover
  option and all with the same \<open>astCache\<close> option; the answers in order.
\<close>

fun compile_texts ::
  "('n, 'e) host \<Rightarrow> ('s, ('n, 'e) ast, 'e) ast_cache option \<Rightarrow> ('s, ('n, 'e) ast) world \<Rightarrow>
     (string \<times> bool option) list \<Rightarrow> ('e + ('n, 'e) ast) list \<times> ('s, ('n, 'e) ast) world" where
  "compile_texts h ch w [] = ([], w)"
| "compile_texts h ch w (req # reqs) =
     (let (x, w1) = browserFumifier_ast h w (Text (fst req))
                      (Some \<lparr>opt_recover = snd req, opt_astCache = ch\<rparr>);
          (xs, w2) = compile_texts h ch w1 reqs
      in (x # xs, w2))"

text \<open>
  The entries of a default cache that only \<open>browserFumifier\<close> has written: each is stored
  under the key of some source text and recover flag and holds what parsing that text
  with that flag gives.
\<close>

definition coherent :: "('n, 'e) host \<Rightarrow> ('n, 'e) ast BrowserCache \<Rightarrow> bool" where
  "coherent h c \<longleftrightarrow>
     (\<forall>e \<in> set (cache c). \<exists>src r.
        fst e = generateKey (createExpressionIdentity (languageVersion h) src r None) \<and>
        direct_parse h src r = Inr (snd e))"

definition coherent_world :: "('n, 'e) host \<Rightarrow> ('s, ('n, 'e) ast) world \<Rightarrow> bool" where
  "coherent_world h w \<longleftrightarrow>
     (case defaultBrowserCache w of None \<Rightarrow> True | Some c \<Rightarrow> coherent h c)"

section \<open>Terminology wrappers (terminologyWrappers.js)\<close>

text \<open>
  The JavaScript values the wrappers handle. Numbers matter only through their
  truthiness, so a number is an integer or \<open>NaN\<close>. An object is the list of its own
  properties.
\<close>

datatype jsval =
    JUndefined
  | JNull
  | JBool bool
  | JNum int
  | JNaN
  | JStr string
  | JArr "jsval list"
  | JObj "(string \<times> jsval) list"

text \<open>\<open>Boolean(v)\<close>, the test of \<open>!v\<close>, \<open>v && w\<close>, \<open>v || w\<close> and \<open>filter(Boolean)\<close>.\<close>

fun truthy :: "jsval \<Rightarrow> bool" where
  "truthy JUndefined = False"
| "truthy JNull = False"
| "truthy (JBool b) = b"
| "truthy (JNum n) = (n \<noteq> 0)"
| "truthy JNaN = False"
| "truthy (JStr s) = (s \<noteq> [])"
| "truthy (JArr xs) = True"
| "truthy (JObj fs) = True"

fun typeof :: "jsval \<Rightarrow> string" where
  "typeof JUndefined = ''undefined''"
| "typeof JNull = ''object''"
| "typeof (JBool b) = ''boolean''"
| "typeof (JNum n) = ''number''"
| "typeof JNaN = ''number''"
| "typeof (JStr s) = ''string''"
| "typeof (JArr xs) = ''object''"
| "typeof (JObj fs) = ''object''"

text \<open>
  \<open>v.name\<close> for the names the wrappers read (\<open>status\<close>, \<open>targets\<close>, \<open>system\<close>, \<open>code\<close>,
  \<open>display\<close>, \<open>version\<close>): the property of an object, \<open>undefined\<close> on an array, a string,
  a number or a boolean. Every read in the wrappers is behind a test that the value is
  truthy, so \<open>null\<close> and \<open>undefined\<close> are never read from.
\<close>

definition get_prop :: "jsval \<Rightarrow> string \<Rightarrow> jsval" where
  "get_prop v name =
     (case v of
        JObj fs \<Rightarrow> (case map_of fs name of Some x \<Rightarrow> x | None \<Rightarrow> JUndefined)
      | _ \<Rightarrow> JUndefined)"

definition js_and :: "jsval \<Rightarrow> jsval \<Rightarrow> jsval" where
  "js_and v w = (if truthy v then w else v)"

definition js_or :: "jsval \<Rightarrow> jsval \<Rightarrow> jsval" where
  "js_or v w = (if truthy v then v else w)"

datatype js_error =
    Coded string string
  | TypeError
  | Thrown jsval

text \<open>\<open>v.map(f)\<close>: defined on arrays; on anything else \<open>v.map\<close> is not a function.\<close>

definition array_map :: "(jsval \<Rightarrow> jsval) \<Rightarrow> jsval \<Rightarrow> js_error + jsval list" where
  "array_map f v = (case v of JArr xs \<Rightarrow> Inr (map f xs) | _ \<Rightarrow> Inl TypeError)"

definition toCodingLike :: "jsval \<Rightarrow> jsval" where
  "toCodingLike target =
     (if \<not> truthy target \<or> typeof target \<noteq> ''object'' then JUndefined
      else
        let system = get_prop target ''system'';
            code = get_prop target ''code'';
            display = get_prop target ''display'';
            version = get_prop target ''version''
        in if \<not> truthy system \<or> \<not> truthy code then JUndefined
           else JObj ([(''system'', system), (''code'', code)]
                  @ (if typeof display = ''string'' \<and> truthy display then [(''display'', display)] else [])
                  @ (if typeof version = ''string'' \<and> truthy version then [(''version'', version)] else [])))"

definition maybeCollapseArray :: "jsval \<Rightarrow> jsval" where
  "maybeCollapseArray items =
     (case items of
        JArr xs \<Rightarrow> (if length xs = 0 then JUndefined else if length xs = 1 then xs ! 0 else JArr xs)
      | _ \<Rightarrow> JUndefined)"

text \<open>
  The terminology runtime is an external collaborator: its \<open>translateConceptMap\<close> returns
  a value or throws. \<open>getTerminologyRuntime\<close> is the argument of
  \<open>createTerminologyWrappers\<close>; \<open>policy.js\<close> and \<open>errorCodes.js\<close> are not among the
  sources, so \<open>createPolicy(environment).enforce(err)\<close> and \<open>populateMessage\<close> (whose own
  exceptions \<open>handleError\<close> ignores) are parameters.
\<close>

record runtime =
  translateConceptMap :: "jsval \<Rightarrow> jsval \<Rightarrow> jsval \<Rightarrow> js_error + jsval"

record 'env wrappers_host =
  getTerminologyRuntime :: "'env \<Rightarrow> runtime option"
  policy_enforce :: "'env \<Rightarrow> js_error \<Rightarrow> bool"
  populateMessage_err :: "js_error \<Rightarrow> js_error"

definition handleError :: "'env wrappers_host \<Rightarrow> js_error \<Rightarrow> 'env \<Rightarrow> js_error + jsval" where
  "handleError h err environment =
     (let err1 = populateMessage_err h err
      in if policy_enforce h environment err1 then Inl err1 else Inr JUndefined)"

definition getRuntimeOrThrow :: "'env wrappers_host \<Rightarrow> 'env \<Rightarrow> string \<Rightarrow> js_error + runtime option" where
  "getRuntimeOrThrow h environment operationName =
     (case getTerminologyRuntime h environment of
        None \<Rightarrow>
          (case handleError h (Coded ''F5305'' operationName) environment of
             Inl err \<Rightarrow> Inl err
           | Inr _ \<Rightarrow> Inr None)
      | Some rt \<Rightarrow> Inr (Some rt))"

definition translateCode ::
  "'env wrappers_host \<Rightarrow> 'env \<Rightarrow> jsval \<Rightarrow> jsval \<Rightarrow> jsval \<Rightarrow> js_error + jsval" where
  "translateCode h environment codeOrCoding conceptMapKey packageFilter =
     (case getRuntimeOrThrow h environment ''translateConceptMap'' of
        Inl err \<Rightarrow> Inl err
      | Inr None \<Rightarrow> Inr JUndefined
      | Inr (Some rt) \<Rightarrow>
          (case translateConceptMap rt codeOrCoding conceptMapKey packageFilter of
             Inl err \<Rightarrow> Inl err
           | Inr result \<Rightarrow>
               if \<not> truthy result \<or> get_prop result ''status'' \<noteq> JStr ''mapped'' then Inr JUndefined
               else
                 (case array_map (\<lambda>t. js_and t (get_prop t ''code''))
                         (js_or (get_prop result ''targets'') (JArr [])) of
                    Inl err \<Rightarrow> Inl err
                  | Inr mapped \<Rightarrow> Inr (maybeCollapseArray (JArr (filter truthy mapped))))))"

definition translateCoding ::
  "'env wrappers_host \<Rightarrow> 'env \<Rightarrow> jsval \<Rightarrow> jsval \<Rightarrow> jsval \<Rightarrow> js_error + jsval" where
  "translateCoding h environment codeOrCoding conceptMapKey packageFilter =
     (case getRuntimeOrThrow h environment ''translateConceptMap'' of
        Inl err \<Rightarrow> Inl err
      | Inr None \<Rightarrow> Inr JUndefined
      | Inr (Some rt) \<Rightarrow>
          (case translateConceptMap rt codeOrCoding conceptMapKey packageFilter of
             Inl err \<Rightarrow> Inl err
           | Inr result \<Rightarrow>
               if \<not> truthy result \<or> get_prop result ''status'' \<noteq> JStr ''mapped'' then Inr JUndefined
               else
                 (case array_map toCodingLike (js_or (get_prop result ''targets'') (JArr [])) of
                    Inl err \<Rightarrow> Inl err
                  | Inr mapped \<Rightarrow> Inr (maybeCollapseArray (JArr (filter truthy mapped))))))"

subsection \<open>What the wrappers are to return, in the words of their contract\<close>

text \<open>
  The runtime's answer counts when it is present and its status is \<open>mapped\<close>. Its targets
  are the elements of \<open>targets\<close> when that is an array, none when it is missing (or
  falsy); any other value of \<open>targets\<close> is not a list of targets at all.
\<close>

definition is_mapped :: "jsval \<Rightarrow> bool" where
  "is_mapped result \<longleftrightarrow> truthy result \<and> get_prop result ''status'' = JStr ''mapped''"

definition targets_of :: "jsval \<Rightarrow> jsval list option" where
  "targets_of result =
     (case get_prop result ''targets'' of
        JArr ts \<Rightarrow> Some ts
      | t \<Rightarrow> (if truthy t then None else Some []))"

text \<open>A target yields a code when it is truthy and its \<open>code\<close> is.\<close>

definition valid_codes :: "jsval list \<Rightarrow> jsval list" where
  "valid_codes ts = map (\<lambda>t. get_prop t ''code'') (filter (\<lambda>t. truthy t \<and> truthy (get_prop t ''code'')) ts)"

text \<open>
  A target yields a coding when it is an object (or array) with a truthy \<open>system\<close> and
  \<open>code\<close>; the coding carries these two, and \<open>display\<close> and \<open>version\<close> when they are
  non-empty strings.
\<close>

definition valid_target :: "jsval \<Rightarrow> bool" where
  "valid_target t \<longleftrightarrow>
     truthy t \<and> typeof t = ''object'' \<and> truthy (get_prop t ''system'') \<and> truthy (get_prop t ''code'')"

definition nonempty_string :: "jsval \<Rightarrow> bool" where
  "nonempty_string v = (case v of JStr s \<Rightarrow> s \<noteq> [] | _ \<Rightarrow> False)"

definition coding_of :: "jsval \<Rightarrow> jsval" where
  "coding_of t =
     JObj ([(''system'', get_prop t ''system''), (''code'', get_prop t ''code'')]
       @ (if nonempty_string (get_prop t ''display'') then [(''display'', get_prop t ''display'')] else [])
       @ (if nonempty_string (get_prop t ''version'') then [(''version'', get_prop t ''version'')] else []))"

definition valid_codings :: "jsval list \<Rightarrow> jsval list" where
  "valid_codings ts = map coding_of (filter valid_target ts)"

text \<open>Nothing left is \<open>undefined\<close>, one value is returned as it is, more as an array.\<close>

fun collapse :: "jsval list \<Rightarrow> jsval" where
  "collapse [] = JUndefined"
| "collapse [v] = v"
| "collapse vs = JArr vs"

text \<open>
  An answer of a runtime with three targets: a full coding with an empty display, a
  \<open>null\<close>, and an object that has a code and no system.
\<close>

definition example_result :: jsval where
  "example_result =
     JObj [(''status'', JStr ''mapped''),
           (''targets'',
            JArr [JObj [(''system'', JStr ''http://loinc.org''), (''code'', JStr ''1234-5''),
                        (''display'', JStr [])],
                  JNull,
                  JObj [(''code'', JStr ''A'')]])]"

definition example_runtime :: runtime where
  "example_runtime = \<lparr>translateConceptMap = (\<lambda>a b c. Inr example_result)\<rparr>"

definition example_host :: "unit wrappers_host" where
  "example_host =
     \<lparr>getTerminologyRuntime = (\<lambda>_. Some example_runtime),
      policy_enforce = (\<lambda>_ _. True),
      populateMessage_err = (\<lambda>e. e)\<rparr>"

section \<open>Properties of the JavaScript map model\<close>

lemma jsmap_has_keys: "jsmap_has m k \<longleftrightarrow> k \<in> set (jsmap_keys m)"
  by (simp add: jsmap_has_def jsmap_keys_def map_of_eq_None_iff)

lemma jsmap_get_None: "jsmap_get m k = None \<longleftrightarrow> k \<notin> set (jsmap_keys m)"
  by (simp add: jsmap_get_def jsmap_keys_def map_of_eq_None_iff)

lemma jsmap_keys_delete: "jsmap_keys (jsmap_delete m k) = filter (\<lambda>x. x \<noteq> k) (jsmap_keys m)"
  by (induction m) (auto simp: jsmap_keys_def jsmap_delete_def)

lemma jsmap_set_fresh: "k \<notin> set (jsmap_keys m) \<Longrightarrow> jsmap_set m k v = m @ [(k, v)]"
  by (induction m) (auto simp: jsmap_keys_def)

lemma jsmap_keys_set_fresh: "k \<notin> set (jsmap_keys m) \<Longrightarrow> jsmap_keys (jsmap_set m k v) = jsmap_keys m @ [k]"
  by (simp add: jsmap_set_fresh) (simp add: jsmap_keys_def)

lemma jsmap_keys_delete_set:
  "jsmap_keys (jsmap_set (jsmap_delete m k) k v) = filter (\<lambda>x. x \<noteq> k) (jsmap_keys m) @ [k]"
  by (simp add: jsmap_keys_set_fresh jsmap_keys_delete)

lemma length_jsmap_keys: "length (jsmap_keys m) = length m"
  by (simp add: jsmap_keys_def)

lemma filter_neq_notin: "k \<notin> set xs \<Longrightarrow> filter (\<lambda>x. x \<noteq> k) xs = xs"
  by (induction xs) auto

lemma in_set_tl: "x \<in> set (tl xs) \<Longrightarrow> x \<in> set xs"
  by (cases xs) auto

lemma filter_hd_distinct: "distinct (x # xs) \<Longrightarrow> filter (\<lambda>y. y \<noteq> x) (x # xs) = xs"
  by (simp add: filter_id_conv) auto

lemma keys_cache_get_key:
  "jsmap_keys (cache (snd (cache_get_key c k))) =
     (if k \<in> set (jsmap_keys (cache c)) then filter (\<lambda>x. x \<noteq> k) (jsmap_keys (cache c)) @ [k]
      else jsmap_keys (cache c))"
proof (cases "jsmap_get (cache c) k")
  case None
  then show ?thesis using jsmap_get_None[of "cache c" k] by (simp add: cache_get_key_def)
next
  case (Some v)
  then have "k \<in> set (jsmap_keys (cache c))" using jsmap_get_None[of "cache c" k] by auto
  then show ?thesis using Some by (simp add: cache_get_key_def jsmap_keys_delete_set)
qed

lemma keys_cache_set_key:
  assumes "distinct (jsmap_keys (cache c))"
  shows "jsmap_keys (cache (cache_set_key c k v)) =
     filter (\<lambda>x. x \<noteq> k)
       (if maxEntries c \<le> int (length (jsmap_keys (cache c))) \<and> k \<notin> set (jsmap_keys (cache c))
        then tl (jsmap_keys (cache c)) else jsmap_keys (cache c)) @ [k]"
proof (cases "cache c")
  case Nil
  then show ?thesis
    by (simp add: cache_set_key_def jsmap_has_def jsmap_first_key_def jsmap_size_def jsmap_keys_def Let_def)
next
  case (Cons e m)
  have d: "filter (\<lambda>y. y \<noteq> fst e) (jsmap_keys (cache c)) = tl (jsmap_keys (cache c))"
    using assms Cons filter_hd_distinct[of "fst e" "map fst m"] by (simp add: jsmap_keys_def)
  have fk: "jsmap_first_key (cache c) = Some (fst e)" using Cons by (simp add: jsmap_first_key_def)
  show ?thesis
    unfolding cache_set_key_def Let_def
    by (simp add: fk jsmap_has_keys jsmap_size_def jsmap_keys_delete jsmap_keys_delete_set d
          jsmap_keys_set_fresh)
       (auto simp: filter_neq_notin length_jsmap_keys dest: in_set_tl)
qed

section \<open>The cache keeps the most recently used keys\<close>

lemma remdups_snoc: "remdups (xs @ [k]) = filter (\<lambda>x. x \<noteq> k) (remdups xs) @ [k]"
  by (induction xs) auto

lemma run_ops_snoc: "run_ops c (ops @ [x]) = apply_op (run_ops c ops) x"
  by (simp add: run_ops_def)

lemma uses_snoc: "uses c (ops @ [x]) = uses c ops @ op_used (run_ops c ops) x"
  by (induction ops arbitrary: c) (simp_all add: run_ops_def)

lemma length_filter_neq_distinct:
  "distinct xs \<Longrightarrow> k \<in> set xs \<Longrightarrow> Suc (length (filter (\<lambda>x. x \<noteq> k) xs)) = length xs"
  by (induction xs) (auto simp: filter_neq_notin)

lemma lru_inv_touch:
  assumes "lru_inv n us c" "k \<in> set (jsmap_keys (cache c))"
    "maxEntries c' = n" "jsmap_keys (cache c') = filter (\<lambda>x. x \<noteq> k) (jsmap_keys (cache c)) @ [k]"
  shows "lru_inv n (us @ [k]) c'"
proof -
  let ?ks = "jsmap_keys (cache c)"
  from assms(1) obtain P where P: "remdups us = P @ ?ks" "P \<noteq> [] \<longrightarrow> length ?ks = nat (max 1 n)"
    and d: "distinct ?ks" and l: "length ?ks \<le> nat (max 1 n)"
    by (auto simp: lru_inv_def)
  have dP: "distinct (P @ ?ks)" using P(1) distinct_remdups[of us] by simp
  then have "k \<notin> set P" using assms(2) by auto
  then have fP: "filter (\<lambda>x. x \<noteq> k) P = P" by (rule filter_neq_notin)
  have len: "length (filter (\<lambda>x. x \<noteq> k) ?ks @ [k]) = length ?ks"
    using length_filter_neq_distinct[OF d assms(2)] by simp
  have "remdups (us @ [k]) = P @ jsmap_keys (cache c')"
    by (simp add: remdups_snoc P(1) fP assms(4))
  moreover have "distinct (jsmap_keys (cache c'))" using d by (simp add: assms(4))
  ultimately show ?thesis using P(2) l len assms(3,4) unfolding lru_inv_def by metis
qed


lemma lru_inv_insert:
  assumes "lru_inv n us c" "k \<notin> set (jsmap_keys (cache c))"
    "maxEntries c' = n"
    "jsmap_keys (cache c') =
       (if n \<le> int (length (jsmap_keys (cache c))) then tl (jsmap_keys (cache c))
        else jsmap_keys (cache c)) @ [k]"
  shows "lru_inv n (us @ [k]) c'"
proof -
  let ?ks = "jsmap_keys (cache c)"
  let ?cap = "nat (max 1 n)"
  from assms(1) obtain P where P: "remdups us = P @ ?ks" "P \<noteq> [] \<longrightarrow> length ?ks = ?cap"
    and d: "distinct ?ks" and l: "length ?ks \<le> ?cap"
    by (auto simp: lru_inv_def)
  have fks: "filter (\<lambda>x. x \<noteq> k) ?ks = ?ks" using assms(2) by (rule filter_neq_notin)
  have r: "remdups (us @ [k]) = filter (\<lambda>x. x \<noteq> k) P @ ?ks @ [k]"
    by (simp add: remdups_snoc P(1) fks)
  show ?thesis
  proof (cases "n \<le> int (length ?ks)")
    case False
    then have "length ?ks < ?cap" by auto
    then have "P = []" using P(2) by auto
    then show ?thesis using r d l assms(2,3,4) False \<open>length ?ks < ?cap\<close>
      unfolding lru_inv_def by auto
  next
    case True
    show ?thesis
    proof (cases ?ks)
      case Nil
      then have "P = []" using P(2) by auto
      then show ?thesis using r Nil assms(3,4) True unfolding lru_inv_def by auto
    next
      case (Cons x xs)
      have full: "length ?ks = ?cap" using True l Cons by auto
      have "remdups (us @ [k]) = (filter (\<lambda>x. x \<noteq> k) P @ [x]) @ jsmap_keys (cache c')"
        using r Cons True assms(4) by simp
      moreover have "distinct (jsmap_keys (cache c'))" using d Cons assms(2,4) True by auto
      moreover have "length (jsmap_keys (cache c')) = ?cap" using full Cons assms(4) True by auto
      ultimately show ?thesis using assms(3) unfolding lru_inv_def by auto
    qed
  qed
qed

lemma lru_inv_apply_op:
  assumes "lru_inv n us c"
  shows "lru_inv n (us @ op_used c x) (apply_op c x)"
proof -
  have d: "distinct (jsmap_keys (cache c))" and m: "maxEntries c = n"
    using assms by (auto simp: lru_inv_def)
  show ?thesis
  proof (cases x)
    case (Get i)
    let ?k = "generateKey i"
    show ?thesis
    proof (cases "?k \<in> set (jsmap_keys (cache c))")
      case True
      then obtain v where v: "jsmap_get (cache c) ?k = Some v"
        using jsmap_get_None[of "cache c" ?k] by auto
      have "maxEntries (snd (cache_get_key c ?k)) = n" using m v by (simp add: cache_get_key_def)
      then show ?thesis
        using lru_inv_touch[OF assms True, of "snd (cache_get_key c ?k)"] Get v True
        by (simp add: keys_cache_get_key BrowserCache_get_def)
    next
      case False
      then have "jsmap_get (cache c) ?k = None" by (simp add: jsmap_get_None)
      then show ?thesis using Get assms by (simp add: BrowserCache_get_def cache_get_key_def)
    qed
  next
    case (Set i v)
    let ?k = "generateKey i"
    have m': "maxEntries (cache_set_key c ?k v) = n" using m by (simp add: cache_set_key_def Let_def)
    show ?thesis
    proof (cases "?k \<in> set (jsmap_keys (cache c))")
      case True
      then show ?thesis
        using lru_inv_touch[OF assms True m'] Set keys_cache_set_key[OF d, of ?k v]
        by (simp add: BrowserCache_set_def)
    next
      case False
      have "filter (\<lambda>x. x \<noteq> ?k) (tl (jsmap_keys (cache c))) = tl (jsmap_keys (cache c))"
        using False by (auto intro!: filter_neq_notin dest: in_set_tl)
      then show ?thesis
        using lru_inv_insert[OF assms False m'] Set keys_cache_set_key[OF d, of ?k v] False m
        by (simp add: BrowserCache_set_def filter_neq_notin)
    qed
  qed
qed

lemma lru_inv_new: "lru_inv (maxEntries (new_BrowserCache n)) [] (new_BrowserCache n)"
  by (simp add: lru_inv_def new_BrowserCache_def jsmap_keys_def)

lemma lru_inv_run_ops:
  "lru_inv n [] c \<Longrightarrow> lru_inv n (uses c ops) (run_ops c ops)"
proof (induction ops rule: rev_induct)
  case Nil
  then show ?case by (simp add: run_ops_def)
next
  case (snoc x ops)
  then show ?case using lru_inv_apply_op[of n "uses c ops" "run_ops c ops" x]
    by (simp add: uses_snoc run_ops_snoc)
qed

lemma lru_inv_most_recent:
  assumes "lru_inv n us c"
  shows "jsmap_keys (cache c) = most_recent (nat (max 1 n)) us"
proof -
  from assms obtain P where P: "remdups us = P @ jsmap_keys (cache c)"
     "P \<noteq> [] \<longrightarrow> length (jsmap_keys (cache c)) = nat (max 1 n)"
    and l: "length (jsmap_keys (cache c)) \<le> nat (max 1 n)"
    by (auto simp: lru_inv_def)
  show ?thesis
  proof (cases "P = []")
    case True
    then show ?thesis using P(1) l by (simp add: most_recent_def Let_def)
  next
    case False
    then show ?thesis using P by (simp add: most_recent_def Let_def)
  qed
qed

lemma lru_inv_run_empty:
  assumes "cache c = []"
  shows "lru_inv (maxEntries c) (uses c ops) (run_ops c ops)"
proof -
  have "lru_inv (maxEntries c) [] c" using assms by (simp add: lru_inv_def jsmap_keys_def)
  then show ?thesis by (rule lru_inv_run_ops)
qed

lemma keys_most_recent_from_empty:
  assumes "cache c = []"
  shows "jsmap_keys (cache (run_ops c ops)) = most_recent (nat (max 1 (maxEntries c))) (uses c ops)"
  by (rule lru_inv_most_recent[OF lru_inv_run_empty[OF assms]])

lemma size_le_capacity_from_empty:
  assumes "cache c = []"
  shows "int (stats_size (run_ops c ops)) \<le> max 1 (maxEntries c)"
proof -
  have "length (jsmap_keys (cache (run_ops c ops))) \<le> nat (max 1 (maxEntries c))"
    using lru_inv_run_empty[OF assms, of ops] by (simp add: lru_inv_def)
  then show ?thesis by (simp add: stats_size_def jsmap_size_def length_jsmap_keys)
qed

lemma distinct_keys_from_empty:
  assumes "cache c = []"
  shows "distinct (jsmap_keys (cache (run_ops c ops)))"
  using lru_inv_run_empty[OF assms, of ops] by (simp add: lru_inv_def)

lemma BrowserCache_keys_most_recent:
  "jsmap_keys (cache (run_ops (new_BrowserCache (Some m)) ops)) =
     most_recent (nat (max 1 m)) (uses (new_BrowserCache (Some m)) ops)"
  using keys_most_recent_from_empty[of "new_BrowserCache (Some m)" ops]
  by (simp add: new_BrowserCache_def)

lemma BrowserCache_size_bound:
  assumes "1 \<le> m"
  shows "int (stats_size (run_ops (new_BrowserCache (Some m)) ops)) \<le> m"
  using size_le_capacity_from_empty[of "new_BrowserCache (Some m)" ops] assms
  by (simp add: new_BrowserCache_def)

lemma BrowserCache_default_size_bound:
  "stats_size (run_ops (new_BrowserCache None) ops) \<le> 100"
  using size_le_capacity_from_empty[of "new_BrowserCache None" ops]
  by (simp add: new_BrowserCache_def DEFAULT_MAX_ENTRIES_def)

lemma BrowserCache_set_evicts_first:
  assumes "distinct (jsmap_keys (cache c))"
    and "maxEntries c \<le> int (stats_size c)"
    and "generateKey i \<notin> set (jsmap_keys (cache c))"
  shows "jsmap_keys (cache (BrowserCache_set c i v)) = tl (jsmap_keys (cache c)) @ [generateKey i]"
  using keys_cache_set_key[OF assms(1), of "generateKey i" v] assms(2,3)
  by (auto simp: BrowserCache_set_def stats_size_def jsmap_size_def length_jsmap_keys
      intro!: filter_neq_notin dest: in_set_tl)

lemma BrowserCache_get_hit_moves_last:
  assumes "fst (BrowserCache_get c i) = Some v"
  shows "jsmap_keys (cache (snd (BrowserCache_get c i))) =
           filter (\<lambda>k. k \<noteq> generateKey i) (jsmap_keys (cache c)) @ [generateKey i]"
proof -
  have "jsmap_get (cache c) (generateKey i) \<noteq> None"
    using assms by (auto simp: BrowserCache_get_def cache_get_key_def split: option.splits)
  then have "generateKey i \<in> set (jsmap_keys (cache c))" by (simp add: jsmap_get_None)
  then show ?thesis by (simp add: BrowserCache_get_def keys_cache_get_key)
qed

lemma map_of_jsmap_set: "map_of (jsmap_set m k v) k = Some v"
  by (induction m) auto

lemma BrowserCache_get_after_set: "fst (BrowserCache_get (BrowserCache_set c i v) i) = Some v"
  by (simp add: BrowserCache_get_def BrowserCache_set_def cache_get_key_def cache_set_key_def
      jsmap_get_def map_of_jsmap_set Let_def)

lemma BrowserCache_evicts_least_recent:
  assumes "1 \<le> m"
    and "c = run_ops (new_BrowserCache (Some m)) ops"
    and "int (stats_size c) = m"
    and "generateKey i \<notin> set (jsmap_keys (cache c))"
  shows "jsmap_keys (cache (BrowserCache_set c i v))
           = tl (most_recent (nat m) (uses (new_BrowserCache (Some m)) ops)) @ [generateKey i]"
proof -
  have e: "cache (new_BrowserCache (Some m) :: 'a BrowserCache) = []"
    by (simp add: new_BrowserCache_def)
  have d: "distinct (jsmap_keys (cache c))"
    using distinct_keys_from_empty[OF e, of ops] assms(2) by simp
  have mx: "maxEntries c = m"
    using lru_inv_run_empty[OF e, of ops] assms(2) by (simp add: lru_inv_def new_BrowserCache_def)
  have k: "jsmap_keys (cache c) = most_recent (nat m) (uses (new_BrowserCache (Some m)) ops)"
    using BrowserCache_keys_most_recent[of m ops] assms(1,2) by (simp add: max_def)
  show ?thesis
    using BrowserCache_set_evicts_first[OF d _ assms(4), of v] mx assms(3) k by simp
qed

text \<open>
  Together: started empty with \<open>maxEntries\<close> at least one, the cache never holds more
  than \<open>maxEntries\<close> entries, its keys are the \<open>maxEntries\<close> most recently used ones in
  the order of their last use, a \<open>get\<close> that finds its key moves it to the end, and a
  \<open>set\<close> of a new key into a full cache drops the first key, which is the least
  recently used one.
\<close>

text \<open>
  C4: the number of stored entries never exceeds \<open>maxEntries\<close>. The code does not keep
  this for a cache constructed with \<open>maxEntries = 0\<close>: the first \<open>set\<close> finds the map at
  capacity, finds no oldest key to delete, and stores the entry all the same. The cache
  then holds one entry while \<open>getStats()\<close> reports \<open>maxEntries\<close> as zero.
\<close>

theorem BrowserCache_zero_capacity_keeps_entry:
  "stats_size (BrowserCache_set (new_BrowserCache (Some 0))
       \<lparr>version = ''1'', source = ''1 + 2'', recover = False, rootPackages = None\<rparr> ''ast'') = 1
   \<and> maxEntries (BrowserCache_set (new_BrowserCache (Some 0))
       \<lparr>version = ''1'', source = ''1 + 2'', recover = False, rootPackages = None\<rparr> ''ast'') = 0"
  by (simp add: BrowserCache_set_def cache_set_key_def new_BrowserCache_def stats_size_def
      jsmap_size_def jsmap_has_def jsmap_first_key_def)

section \<open>Cache keys and identities\<close>

lemma generateKey_browser:
  "generateKey (createExpressionIdentity ver src r None) =
     ver @ ''|'' @ src @ ''|'' @ (if recover_flag r then ''recover'' else ''normal'') @ ''|''"
  by (simp add: generateKey_def createExpressionIdentity_def)

lemma generateKey_browser_inj:
  assumes "generateKey (createExpressionIdentity ver src r None) =
           generateKey (createExpressionIdentity ver src' r' None)"
  shows "src = src' \<and> recover_flag r = recover_flag r'"
proof -
  let ?f = "\<lambda>r. (if recover_flag r then ''recover'' else ''normal'')"
  have "src @ ''|'' @ ?f r = src' @ ''|'' @ ?f r'"
    using assms unfolding generateKey_browser by simp
  then have "rev (?f r) @ ''|'' @ rev src = rev (?f r') @ ''|'' @ rev src'"
    using arg_cong[of _ _ rev] by fastforce
  then show ?thesis by (auto split: if_splits)
qed

subsection \<open>\<open>JSON.stringify\<close> on string arrays is one-to-one\<close>

lemma upt16: "[0..<16] = [0,1,2,3,4,5,6,7,8,9,10,11,12,13,14,15::nat]"
  by code_simp

lemma hex_digit_inj:
  assumes "a < 16" "b < 16" "hex_digit a = hex_digit b"
  shows "a = b"
proof -
  have a: "a \<in> set [0..<16]" using assms(1) by simp
  have b: "b \<in> set [0..<16]" using assms(2) by simp
  show ?thesis using a b assms(3) unfolding upt16 by (auto simp: hex_digit_def)
qed

lemma quote_json_char_cases:
  "quote_json_char c = [c] \<and> c \<noteq> CHR 0x22 \<and> c \<noteq> CHR 0x5C \<or>
   (\<exists>e. quote_json_char c = [CHR 0x5C, e] \<and> e \<noteq> CHR ''u'') \<or>
   quote_json_char c = [CHR 0x5C, CHR ''u'', CHR ''0'', CHR ''0'',
              hex_digit (of_char c div 16), hex_digit (of_char c)] \<and> (of_char c :: nat) < 32"
  by (simp add: quote_json_char_def)

lemma quote_json_char_short_inj:
  assumes "quote_json_char c = [CHR 0x5C, e]" "quote_json_char d = [CHR 0x5C, e]"
  shows "c = d"
  using assms by (auto simp: quote_json_char_def split: if_splits)


lemma quote_json_char_long_inj:
  assumes "(of_char c :: nat) < 32" "(of_char d :: nat) < 32"
    and "hex_digit (of_char c div 16) = hex_digit (of_char d div 16)"
    and "hex_digit (of_char c) = hex_digit (of_char d)"
  shows "c = d"
proof -
  let ?a = "of_char c :: nat" and ?b = "of_char d :: nat"
  have 1: "?a div 16 = ?b div 16"
    using assms(1,2) by (intro hex_digit_inj[OF _ _ assms(3)]) auto
  have "hex_digit (?a mod 16) = hex_digit (?b mod 16)"
    using assms(4) by (simp add: hex_digit_def)
  then have 2: "?a mod 16 = ?b mod 16" by (intro hex_digit_inj) auto
  have "?a = ?b" using 1 2 by (metis div_mult_mod_eq)
  then show ?thesis by (rule of_char_eqI)
qed

lemma quote_json_char_prefix_code:
  assumes "quote_json_char c @ X = quote_json_char d @ Y"
  shows "c = d \<and> X = Y"
proof -
  consider (p) "quote_json_char c = [c]" "c \<noteq> CHR 0x22" "c \<noteq> CHR 0x5C"
    | (s) e where "quote_json_char c = [CHR 0x5C, e]" "e \<noteq> CHR ''u''"
    | (l) "quote_json_char c = [CHR 0x5C, CHR ''u'', CHR ''0'', CHR ''0'',
              hex_digit (of_char c div 16), hex_digit (of_char c)]" "(of_char c :: nat) < 32"
    using quote_json_char_cases[of c] by blast
  then show ?thesis
  proof cases
    case p
    then show ?thesis using assms quote_json_char_cases[of d] by auto
  next
    case s
    then show ?thesis using assms quote_json_char_cases[of d] quote_json_char_short_inj[of c e d]
      by auto
  next
    case l
    then show ?thesis using assms quote_json_char_cases[of d] quote_json_char_long_inj[of c d]
      by auto
  qed
qed


lemma quote_json_char_not_quote:
  "quote_json_char d @ X \<noteq> CHR 0x22 # Y"
  using quote_json_char_cases[of d] by auto

lemma quoted_body_prefix_code:
  assumes "concat (map quote_json_char s) @ CHR 0x22 # X = concat (map quote_json_char t) @ CHR 0x22 # Y"
  shows "s = t \<and> X = Y"
  using assms
proof (induction s arbitrary: t)
  case Nil
  then show ?case using quote_json_char_not_quote[of _ _ X] by (cases t) (auto simp: eq_commute)
next
  case (Cons c s)
  show ?case
  proof (cases t)
    case Nil
    then show ?thesis using Cons.prems quote_json_char_not_quote[of c _ Y] by auto
  next
    case (Cons d t')
    then have "quote_json_char c @ (concat (map quote_json_char s) @ CHR 0x22 # X)
             = quote_json_char d @ (concat (map quote_json_char t') @ CHR 0x22 # Y)"
      using Cons.prems by simp
    from quote_json_char_prefix_code[OF this] Cons.IH[of t'] Cons show ?thesis by auto
  qed
qed

lemma quote_json_string_prefix_code:
  assumes "quote_json_string s @ X = quote_json_string t @ Y"
  shows "s = t \<and> X = Y"
  using assms quoted_body_prefix_code[of s X t Y] by (simp add: quote_json_string_def)

lemma json_stringify_Cons:
  "json_stringify (x # xs) = ''['' @ quote_json_string x @ json_tail xs"
proof -
  have "join '','' (map quote_json_string (x # xs)) @ '']'' = quote_json_string x @ json_tail xs"
    by (induction xs arbitrary: x) simp_all
  then show ?thesis by (simp add: json_stringify_def)
qed

lemma json_tail_inj: "json_tail xs = json_tail ys \<Longrightarrow> xs = ys"
proof (induction xs arbitrary: ys)
  case Nil
  then show ?case by (cases ys) auto
next
  case (Cons x xs)
  show ?case
  proof (cases ys)
    case Nil
    then show ?thesis using Cons.prems by auto
  next
    case (Cons y ys')
    then have "quote_json_string x @ json_tail xs = quote_json_string y @ json_tail ys'"
      using Cons.prems by simp
    from quote_json_string_prefix_code[OF this] Cons.IH[of ys'] Cons show ?thesis by auto
  qed
qed

lemma json_stringify_inj:
  assumes "json_stringify xs = json_stringify ys"
  shows "xs = ys"
proof (cases xs)
  case Nil
  then show ?thesis using assms
    by (cases ys) (auto simp: json_stringify_Cons, simp add: json_stringify_def quote_json_string_def)
next
  case (Cons x xs')
  show ?thesis
  proof (cases ys)
    case Nil
    then show ?thesis using assms Cons
      by (auto simp: json_stringify_Cons, simp add: json_stringify_def quote_json_string_def)
  next
    case c: (Cons y ys')
    then have "quote_json_string x @ json_tail xs' = quote_json_string y @ json_tail ys'"
      using assms Cons by (simp add: json_stringify_Cons)
    from quote_json_string_prefix_code[OF this] json_tail_inj[of xs' ys'] Cons c show ?thesis by auto
  qed
qed

subsection \<open>The key keeps every component of the identity apart\<close>

text \<open>
  Two identities that differ in the recover flag only, in the source text only or in the
  schema context only get different keys from \<open>_generateKey\<close>.
\<close>

lemma generateKey_recover_differs:
  "generateKey (i\<lparr>recover := True\<rparr>) \<noteq> generateKey (i\<lparr>recover := False\<rparr>)"
  by (simp add: generateKey_def)

lemma generateKey_source_inj:
  assumes "generateKey (i\<lparr>source := s\<rparr>) = generateKey (i\<lparr>source := s'\<rparr>)"
  shows "s = s'"
  using assms by (simp add: generateKey_def)

lemma generateKey_context_inj:
  assumes "generateKey (i\<lparr>rootPackages := ctx\<rparr>) = generateKey (i\<lparr>rootPackages := ctx'\<rparr>)"
  shows "ctx = ctx'"
proof -
  have "(case ctx of Some ps \<Rightarrow> json_stringify ps | None \<Rightarrow> [])
      = (case ctx' of Some ps \<Rightarrow> json_stringify ps | None \<Rightarrow> [])"
    using assms by (simp add: generateKey_def)
  then show ?thesis
    using json_stringify_inj by (auto simp: json_stringify_def split: option.splits)
qed

text \<open>
  So the cache keeps apart what the builder keeps apart: the keys of two identities built
  from one text are equal only when the effective recover flags and the schema contexts
  are.
\<close>

lemma built_identity_keys_apart:
  "(generateKey (createExpressionIdentity ver src r ctx) = generateKey (createExpressionIdentity ver src r' ctx'))
     = (recover_flag r = recover_flag r' \<and> ctx = ctx')"
proof -
  have "generateKey (createExpressionIdentity ver src r ctx) = generateKey (createExpressionIdentity ver src r' ctx')
        \<Longrightarrow> recover_flag r = recover_flag r' \<and> ctx = ctx'"
  proof -
    assume k: "generateKey (createExpressionIdentity ver src r ctx) = generateKey (createExpressionIdentity ver src r' ctx')"
    let ?f = "\<lambda>r. (if recover_flag r then ''recover'' else ''normal'')"
    let ?c = "\<lambda>ctx. (case ctx of Some ps \<Rightarrow> json_stringify ps | None \<Rightarrow> [])"
    from k have e: "?f r @ ''|'' @ ?c ctx = ?f r' @ ''|'' @ ?c ctx'"
      by (simp add: generateKey_def createExpressionIdentity_def)
    then have f: "recover_flag r = recover_flag r'" by (auto split: if_splits)
    with e have "?c ctx = ?c ctx'" by simp
    then have "ctx = ctx'"
      using json_stringify_inj by (auto simp: json_stringify_def split: option.splits)
    with f show ?thesis by simp
  qed
  then show ?thesis by (auto simp: createExpressionIdentity_def generateKey_def)
qed

text \<open>
  C1: identities built from the same text differ when the recover flags differ and when
  the schema contexts differ; equal arguments give equal identities (two identities are
  equal exactly when text, effective flag and context are); the \<open>recover\<close> field is the
  flag given, and \<open>false\<close> when none is given.
\<close>

theorem createExpressionIdentity_sensitive:
  "createExpressionIdentity ver src (Some True) ctx \<noteq> createExpressionIdentity ver src (Some False) ctx
   \<and> (createExpressionIdentity ver src r ctx1 = createExpressionIdentity ver src r ctx2) = (ctx1 = ctx2)
   \<and> (createExpressionIdentity ver src r ctx = createExpressionIdentity ver src' r' ctx')
       = (src = src' \<and> recover_flag r = recover_flag r' \<and> ctx = ctx')
   \<and> recover (createExpressionIdentity ver src None ctx) = False
   \<and> recover (createExpressionIdentity ver src (Some b) ctx) = b"
  by (simp add: createExpressionIdentity_def recover_flag_def)

section \<open>browserFumifier with a failing cache and with the default cache\<close>

lemma faulty_cache_direct:
  "browserFumifier_ast h w (Text src) (Some \<lparr>opt_recover = r, opt_astCache = Some (faulty_cache e1 e2)\<rparr>)
     = (direct_parse h src r, w)"
  by (simp add: browserFumifier_ast_def chosen_cache_def astCache_get_def astCache_set_def
      faulty_cache_def direct_parse_def Let_def split: sum.splits)

lemma set_jsmap_delete: "set (jsmap_delete m k) \<subseteq> set m"
  by (auto simp: jsmap_delete_def)

lemma set_jsmap_set: "set (jsmap_set m k v) \<subseteq> insert (k, v) (set m)"
  by (induction m) auto

lemma jsmap_get_in_set: "jsmap_get m k = Some v \<Longrightarrow> (k, v) \<in> set m"
  by (simp add: jsmap_get_def map_of_SomeD)

lemma set_cache_get_key: "set (cache (snd (cache_get_key c k))) \<subseteq> set (cache c)"
proof (cases "jsmap_get (cache c) k")
  case None
  then show ?thesis by (simp add: cache_get_key_def)
next
  case (Some v)
  then show ?thesis
    using set_jsmap_set[of "jsmap_delete (cache c) k" k v] set_jsmap_delete[of "cache c" k]
      jsmap_get_in_set[OF Some]
    by (auto simp: cache_get_key_def)
qed

lemma set_cache_set_key: "set (cache (cache_set_key c k v)) \<subseteq> insert (k, v) (set (cache c))"
proof -
  define m1 where "m1 = (if int (jsmap_size (cache c)) \<ge> maxEntries c \<and> \<not> jsmap_has (cache c) k
                then (case jsmap_first_key (cache c) of
                        Some firstKey \<Rightarrow> jsmap_delete (cache c) firstKey
                      | None \<Rightarrow> cache c)
                else cache c)"
  define m2 where "m2 = (if jsmap_has m1 k then jsmap_delete m1 k else m1)"
  have 1: "set m1 \<subseteq> set (cache c)"
    unfolding m1_def using set_jsmap_delete[of "cache c"] by (auto split: option.splits)
  have 2: "set m2 \<subseteq> set m1"
    unfolding m2_def using set_jsmap_delete[of m1 k] by simp
  have "cache (cache_set_key c k v) = jsmap_set m2 k v"
    by (simp add: cache_set_key_def Let_def m1_def m2_def)
  then show ?thesis using set_jsmap_set[of m2 k v] 1 2 by auto
qed

lemma coherent_get:
  assumes "coherent h c"
  shows "coherent h (snd (BrowserCache_get c i))"
  using assms set_cache_get_key[of c "generateKey i"]
  unfolding coherent_def BrowserCache_get_def by blast

lemma coherent_set:
  assumes "coherent h c" "direct_parse h src r = Inr a"
  shows "coherent h (BrowserCache_set c (createExpressionIdentity (languageVersion h) src r None) a)"
  unfolding coherent_def
proof
  fix e
  let ?k = "generateKey (createExpressionIdentity (languageVersion h) src r None)"
  assume "e \<in> set (cache (BrowserCache_set c (createExpressionIdentity (languageVersion h) src r None) a))"
  then have "e = (?k, a) \<or> e \<in> set (cache c)"
    using set_cache_set_key[of c ?k a] by (auto simp: BrowserCache_set_def)
  then show "\<exists>src r. fst e = generateKey (createExpressionIdentity (languageVersion h) src r None) \<and>
        direct_parse h src r = Inr (snd e)"
  proof
    assume "e = (?k, a)"
    then have "fst e = ?k \<and> direct_parse h src r = Inr (snd e)" using assms(2) by simp
    then show ?thesis by blast
  next
    assume "e \<in> set (cache c)"
    then show ?thesis using assms(1) unfolding coherent_def by blast
  qed
qed

lemma direct_parse_flag:
  "recover_flag r = recover_flag r' \<Longrightarrow> direct_parse h src r = direct_parse h src r'"
  by (simp add: direct_parse_def)

lemma coherent_hit:
  assumes "coherent h c"
    and "fst (BrowserCache_get c (createExpressionIdentity (languageVersion h) src r None)) = Some a"
  shows "direct_parse h src r = Inr a"
proof -
  let ?k = "generateKey (createExpressionIdentity (languageVersion h) src r None)"
  have "jsmap_get (cache c) ?k = Some a"
    using assms(2) by (auto simp: BrowserCache_get_def cache_get_key_def split: option.splits)
  then have "(?k, a) \<in> set (cache c)" by (rule jsmap_get_in_set)
  then obtain src' r' where k: "?k = generateKey (createExpressionIdentity (languageVersion h) src' r' None)"
    and d: "direct_parse h src' r' = Inr a"
    using assms(1) unfolding coherent_def by fastforce
  from generateKey_browser_inj[OF k] have "src = src'" "recover_flag r = recover_flag r'" by auto
  then show ?thesis using d direct_parse_flag[of r r' h src] by simp
qed


lemma coherent_new: "coherent h (new_BrowserCache n)"
  by (simp add: coherent_def new_BrowserCache_def)

lemma getDefaultBrowserCache_coherent:
  assumes "coherent_world h w" "getDefaultBrowserCache w = (c, w0)"
  shows "coherent h c \<and> defaultBrowserCache w0 = Some c \<and> getDefaultBrowserCache w0 = (c, w0)"
  using assms coherent_new[of h None]
  by (auto simp: getDefaultBrowserCache_def coherent_world_def split: option.splits)

lemma default_cache_direct:
  fixes h :: "('n, 'e) host" and w :: "('s, ('n, 'e) ast) world"
  assumes "coherent_world h w"
  shows "fst (browserFumifier_ast h w (Text src) (Some \<lparr>opt_recover = r, opt_astCache = None\<rparr>))
           = direct_parse h src r
       \<and> coherent_world h (snd (browserFumifier_ast h w (Text src) (Some \<lparr>opt_recover = r, opt_astCache = None\<rparr>)))"
proof -
  let ?i = "createExpressionIdentity (languageVersion h) src r None"
  obtain c w0 where g: "getDefaultBrowserCache w = (c, w0)" by force
  from getDefaultBrowserCache_coherent[OF assms g]
  have c: "coherent h c" and g0: "getDefaultBrowserCache w0 = (c, w0)" by auto
  let ?none = "None :: ('s, ('n, 'e) ast, 'e) ast_cache option"
  have ch: "chosen_cache (Some \<lparr>opt_recover = r, opt_astCache = ?none\<rparr>) w = (?none, w0)"
    using g by (simp add: chosen_cache_def)
  obtain v c1 where b: "BrowserCache_get c ?i = (v, c1)" by force
  have c1: "coherent h c1" using coherent_get[OF c, of ?i] b by simp
  let ?w1 = "w0\<lparr>defaultBrowserCache := Some c1\<rparr>"
  have get: "astCache_get ?none w0 ?i = (Inr v, ?w1)"
    using g0 b by (simp add: astCache_get_def)
  have gw: "getDefaultBrowserCache ?w1 = (c1, ?w1)" by (simp add: getDefaultBrowserCache_def)
  have set: "\<And>a. astCache_set ?none ?w1 ?i a = (Inr (), ?w1\<lparr>defaultBrowserCache := Some (BrowserCache_set c1 ?i a)\<rparr>)"
    using gw by (simp add: astCache_set_def)
  show ?thesis
  proof (cases v)
    case (Some a)
    then have "direct_parse h src r = Inr a" using coherent_hit[OF c, of src r a] b by simp
    then show ?thesis using Some ch get c1
      by (simp add: browserFumifier_ast_def coherent_world_def)
  next
    case None
    show ?thesis
    proof (cases "parser h src (recover_flag r)")
      case (Inl err)
      then show ?thesis using None ch get c1
        by (simp add: browserFumifier_ast_def coherent_world_def direct_parse_def)
    next
      case (Inr parsed)
      then have d: "direct_parse h src r = Inr (ensure_errors parsed)" by (simp add: direct_parse_def)
      have "coherent h (BrowserCache_set c1 ?i (ensure_errors parsed))"
        by (rule coherent_set[OF c1 d])
      then show ?thesis using None ch get set Inr d
        by (simp add: browserFumifier_ast_def coherent_world_def Let_def)
    qed
  qed
qed

lemma compile_texts_default:
  assumes "coherent_world h w"
  shows "fst (compile_texts h None w reqs) = map (\<lambda>req. direct_parse h (fst req) (snd req)) reqs"
  using assms
proof (induction reqs arbitrary: w)
  case Nil
  then show ?case by simp
next
  case (Cons req reqs)
  let ?s = "browserFumifier_ast h w (Text (fst req)) (Some \<lparr>opt_recover = snd req, opt_astCache = None\<rparr>)"
  from default_cache_direct[OF Cons.prems, of "fst req" "snd req"]
  have 1: "fst ?s = direct_parse h (fst req) (snd req)" and 2: "coherent_world h (snd ?s)" by auto
  from Cons.IH[OF 2] 1 show ?case by (simp add: case_prod_beta Let_def)
qed

lemma compile_texts_faulty:
  "fst (compile_texts h (Some (faulty_cache e1 e2)) w reqs) = map (\<lambda>req. direct_parse h (fst req) (snd req)) reqs"
  by (induction reqs arbitrary: w) (simp_all add: faulty_cache_direct case_prod_beta)

lemma isl_direct_parse: "isl (direct_parse h src r) = isl (parser h src (recover_flag r))"
  by (simp add: direct_parse_def split: sum.splits)

text \<open>
  The first half of \<open>browserFumifier\<close>, up to the call of the main \<open>fumifier\<close>: with a
  supplied cache whose \<open>get\<close> and \<open>set\<close> always throw, every compilation of a source
  text hands on exactly what parsing it directly gives (a throwing \<open>get\<close> counts as a
  miss, a throwing \<open>set\<close> is ignored, and neither exception surfaces), so this half
  fails only where the parser itself throws. The default cache, started empty, hands on
  the same trees for the same compilations. What the main \<open>fumifier\<close> and \<open>evaluate\<close>
  then do with the tree and with the cache they are given is outside these sources.
\<close>

lemma browserFumifier_ast_faulty_cache:
  "fst (compile_texts h (Some (faulty_cache get_error set_error)) w reqs)
     = map (\<lambda>req. direct_parse h (fst req) (snd req)) reqs
   \<and> map isl (fst (compile_texts h (Some (faulty_cache get_error set_error)) w reqs))
     = map (\<lambda>req. isl (parser h (fst req) (recover_flag (snd req)))) reqs
   \<and> fst (compile_texts h None \<lparr>defaultBrowserCache = None, supplied = s\<rparr> reqs)
     = fst (compile_texts h (Some (faulty_cache get_error set_error)) w reqs)"
proof -
  have "coherent_world h \<lparr>defaultBrowserCache = None, supplied = s\<rparr>"
    by (simp add: coherent_world_def)
  then show ?thesis
    using compile_texts_default[of h "\<lparr>defaultBrowserCache = None, supplied = s\<rparr>" reqs]
      compile_texts_faulty[of h get_error set_error w reqs]
    by (simp add: isl_direct_parse)
qed

section \<open>The translate wrappers against their contract\<close>

lemma truthy_js_and: "truthy (js_and v w) \<longleftrightarrow> truthy v \<and> truthy w"
  by (simp add: js_and_def)

lemma filter_codes: "filter truthy (map (\<lambda>t. js_and t (get_prop t ''code'')) ts) = valid_codes ts"
  by (induction ts) (auto simp: valid_codes_def js_and_def)

lemma nonempty_string_iff: "nonempty_string v \<longleftrightarrow> typeof v = ''string'' \<and> truthy v"
  by (cases v) (simp_all add: nonempty_string_def)

lemma toCodingLike_valid: "toCodingLike t = (if valid_target t then coding_of t else JUndefined)"
  by (simp add: toCodingLike_def valid_target_def coding_of_def nonempty_string_iff Let_def)

lemma filter_codings: "filter truthy (map toCodingLike ts) = valid_codings ts"
  by (induction ts) (auto simp: valid_codings_def toCodingLike_valid coding_of_def)

lemma maybeCollapseArray_collapse: "maybeCollapseArray (JArr vs) = collapse vs"
  by (cases vs rule: collapse.cases) (simp_all add: maybeCollapseArray_def)

lemma array_map_targets:
  "array_map f (js_or (get_prop result ''targets'') (JArr [])) =
     (case targets_of result of None \<Rightarrow> Inl TypeError | Some ts \<Rightarrow> Inr (map f ts))"
  by (cases "get_prop result ''targets''") (simp_all add: array_map_def js_or_def targets_of_def)

lemma getRuntimeOrThrow_configured:
  "getTerminologyRuntime h env = Some rt \<Longrightarrow> getRuntimeOrThrow h env op = Inr (Some rt)"
  by (simp add: getRuntimeOrThrow_def)

text \<open>
  C10: with a configured runtime whose \<open>translateConceptMap\<close> returns, \<open>translateCode\<close> and
  \<open>translateCoding\<close> return \<open>undefined\<close> when the result is absent or its status is not
  \<open>mapped\<close>; otherwise the targets that yield no code (no coding) are dropped and what
  is left is collapsed: nothing gives \<open>undefined\<close>, one value is returned as it is, two
  or more as an array. (A \<open>targets\<close> that is neither missing nor an array has no \<open>map\<close>,
  and the call throws a TypeError.)
\<close>

theorem translate_wrappers_collapse:
  assumes "getTerminologyRuntime h env = Some rt"
    and "translateConceptMap rt codeOrCoding conceptMapKey packageFilter = Inr result"
  shows "translateCode h env codeOrCoding conceptMapKey packageFilter =
           (if \<not> is_mapped result then Inr JUndefined
            else case targets_of result of
                   None \<Rightarrow> Inl TypeError
                 | Some ts \<Rightarrow> Inr (collapse (valid_codes ts)))
       \<and> translateCoding h env codeOrCoding conceptMapKey packageFilter =
           (if \<not> is_mapped result then Inr JUndefined
            else case targets_of result of
                   None \<Rightarrow> Inl TypeError
                 | Some ts \<Rightarrow> Inr (collapse (valid_codings ts)))"
proof -
  have c: "translateCode h env codeOrCoding conceptMapKey packageFilter =
           (if \<not> is_mapped result then Inr JUndefined
            else case targets_of result of
                   None \<Rightarrow> Inl TypeError
                 | Some ts \<Rightarrow> Inr (collapse (valid_codes ts)))"
    using assms
    by (simp add: translateCode_def getRuntimeOrThrow_configured is_mapped_def array_map_targets
        filter_codes maybeCollapseArray_collapse split: option.splits)
  have d: "translateCoding h env codeOrCoding conceptMapKey packageFilter =
           (if \<not> is_mapped result then Inr JUndefined
            else case targets_of result of
                   None \<Rightarrow> Inl TypeError
                 | Some ts \<Rightarrow> Inr (collapse (valid_codings ts)))"
    using assms
    by (simp add: translateCoding_def getRuntimeOrThrow_configured is_mapped_def array_map_targets
        filter_codings maybeCollapseArray_collapse split: option.splits)
  from c d show ?thesis by simp
qed

lemma valid_codes_truthy: "v \<in> set (valid_codes ts) \<Longrightarrow> truthy v"
  by (auto simp: valid_codes_def)

lemma valid_codings_shape:
  "v \<in> set (valid_codings ts) \<Longrightarrow>
     truthy v \<and> truthy (get_prop v ''system'') \<and> truthy (get_prop v ''code'')"
  by (auto simp: valid_codings_def coding_of_def valid_target_def get_prop_def)

lemma collapse_cases:
  "collapse vs = (if length vs = 0 then JUndefined else if length vs = 1 then hd vs else JArr vs)"
  by (cases vs rule: collapse.cases) simp_all

theorem translate_wrappers_collapse_witness:
  "getTerminologyRuntime example_host () = Some example_runtime
   \<and> translateConceptMap example_runtime (JStr ''x'') (JStr ''cm'') JUndefined = Inr example_result
   \<and> translateCode example_host () (JStr ''x'') (JStr ''cm'') JUndefined
       = Inr (JArr [JStr ''1234-5'', JStr ''A''])
   \<and> translateCoding example_host () (JStr ''x'') (JStr ''cm'') JUndefined
       = Inr (JObj [(''system'', JStr ''http://loinc.org''), (''code'', JStr ''1234-5'')])"
proof -
  have r: "getTerminologyRuntime example_host () = Some example_runtime"
    by (simp add: example_host_def)
  have t: "translateConceptMap example_runtime (JStr ''x'') (JStr ''cm'') JUndefined = Inr example_result"
    by (simp add: example_runtime_def)
  show ?thesis
    using translate_wrappers_collapse[OF r t] r t
    by (simp add: example_result_def is_mapped_def targets_of_def get_prop_def valid_codes_def
        valid_codings_def valid_target_def coding_of_def nonempty_string_def)
qed

end
